theory Spec2Isabelle
  imports Main
begin

section \<open>The duplicate file remover (DuplicateFileRemover.py)\<close>

text \<open>
  The script hashes every non-empty file below a folder, groups the paths by digest, and
  after a confirmation deletes every path of a group but the first. The embedding below
  follows the four functions of the source: \<open>calculate_hash\<close>, \<open>find_duplicate_files\<close>,
  \<open>delete_duplicates\<close> and \<open>main\<close>. What they obtain from the operating system and from
  the libraries (\<open>os\<close>, \<open>hashlib\<close>, \<open>tkinter\<close>) is made explicit:
  \<^item> the file system is a map from paths to nodes, read by \<open>os.path.isdir\<close>,
    \<open>os.path.getsize\<close> and \<open>open\<close>, and changed by \<open>os.remove\<close> only;
  \<^item> the digest function of \<open>hashlib.sha256\<close> and the sequence of triples that \<open>os.walk\<close>
    yields are parameters, collected in the record \<open>env\<close>;
  \<^item> every dialog and every printed line is an event of the returned trace;
  \<^item> an exception that the source does not catch is the \<open>Inl\<close> branch of the result.
\<close>

subsection \<open>File system, exceptions and events\<close>

type_synonym path = string
type_synonym bytes = string
type_synonym digest = string

text \<open>
  The subclasses of \<open>OSError\<close> that the calls below raise (\<open>IOError\<close> is \<open>OSError\<close>), and
  the exceptions that can leave a function of the script: an \<open>OSError\<close> with the path it is
  about, the \<open>IndexError\<close> of indexing an empty list, and the \<open>ValueError\<close> and the
  \<open>OverflowError\<close> with which \<open>f.read\<close> refuses a size. The last three are not \<open>OSError\<close>s.
\<close>

datatype os_error = FileNotFoundError | PermissionError | IsADirectoryError

datatype py_error = OSError os_error path | IndexError | ValueError | OverflowError

text \<open>
  A regular file has its bytes, a flag saying that it can be opened and read, and a flag
  saying that its directory entry may be removed. A directory has the size that \<open>stat\<close>
  reports for it.
\<close>

datatype node =
    File (content: bytes) (readable: bool) (removable: bool)
  | Directory (st_size: nat)

type_synonym filesystem = "path \<rightharpoonup> node"

record env =
  sha256 :: "bytes \<Rightarrow> digest"
  os_walk :: "path \<Rightarrow> (path \<times> path list \<times> path list) list"

datatype event =
    Scanning path
  | Error_Invalid_Directory
  | Info_No_Duplicates
  | Confirm_Deletion int "path list"
  | Deleted path
  | Error_Deleting path os_error
  | Info_Summary nat nat
  | Info_Cancelled_No_Files_Deleted
  | Info_Cancelled_No_Folder

text \<open>The two buttons of the confirmation window, and closing it without pressing one.\<close>

datatype decision = Press_Delete | Press_Cancel | Close_Window

definition os_path_isdir :: "filesystem \<Rightarrow> path \<Rightarrow> bool" where
  "os_path_isdir fs p = (case fs p of Some (Directory n) \<Rightarrow> True | _ \<Rightarrow> False)"

text \<open>\<open>os.path.getsize\<close> is \<open>os.stat(p).st_size\<close>: it raises when the path names nothing.\<close>

definition os_path_getsize :: "filesystem \<Rightarrow> path \<Rightarrow> os_error + nat" where
  "os_path_getsize fs p =
     (case fs p of
        None \<Rightarrow> Inl FileNotFoundError
      | Some (File c r w) \<Rightarrow> Inr (length c)
      | Some (Directory n) \<Rightarrow> Inr n)"

definition os_remove :: "filesystem \<Rightarrow> path \<Rightarrow> os_error + filesystem" where
  "os_remove fs p =
     (case fs p of
        None \<Rightarrow> Inl FileNotFoundError
      | Some (Directory n) \<Rightarrow> Inl IsADirectoryError
      | Some (File c r w) \<Rightarrow>
          if w then Inr (fs(p := None)) else Inl PermissionError)"

text \<open>\<open>posixpath.join\<close> of two components.\<close>

definition os_path_join :: "path \<Rightarrow> path \<Rightarrow> path" where
  "os_path_join a b =
     (if b \<noteq> [] \<and> hd b = CHR ''/'' then b
      else if a = [] \<or> last a = CHR ''/'' then a @ b
      else a @ ''/'' @ b)"

subsection \<open>calculate\_hash\<close>

text \<open>
  \<open>f\<close> is the \<open>BufferedReader\<close> that \<open>open(filepath, 'rb')\<close> returns. \<open>f.read(n)\<close> returns the
  next \<open>n\<close> bytes (fewer at the end of the file, none for \<open>n = 0\<close>), and everything that is
  left when \<open>n\<close> is \<open>-1\<close>; at the end of the file it returns the empty bytes object. It
  refuses every other size before it reads anything (CPython on a 64-bit platform): a
  size that is no index-sized integer, or for which the bytes object to allocate would be
  too large, with \<open>OverflowError\<close>, and a negative size other than \<open>-1\<close> with
  \<open>ValueError\<close>. The pair is the data read and the rest of the file. Running out of
  memory is outside the embedding, here as for every other object the script creates.
\<close>

definition f_read :: "int \<Rightarrow> bytes \<Rightarrow> py_error + (bytes \<times> bytes)" where
  "f_read n rest =
     (if n < - (2 ^ 63) \<or> 2 ^ 63 - 33 \<le> n then Inl OverflowError
      else if n < - 1 then Inl ValueError
      else if n = - 1 then Inr (rest, [])
      else Inr (take (nat n) rest, drop (nat n) rest))"

text \<open>
  The \<open>while True\<close> loop. The state of the \<open>sha256\<close> object is the bytes fed to it so far:
  \<open>update\<close> appends, and \<open>hexdigest\<close> is the digest of the concatenation. An exception of
  \<open>f.read\<close> ends the loop and is the result.
\<close>

function read_loop :: "int \<Rightarrow> bytes \<Rightarrow> bytes \<Rightarrow> py_error + bytes" where
  "read_loop block_size rest fed =
     (case f_read block_size rest of
        Inl e \<Rightarrow> Inl e
      | Inr (data, rest') \<Rightarrow>
          if data = [] then Inr fed else read_loop block_size rest' (fed @ data))"
  by pat_completeness auto
termination
  by (relation "measure (\<lambda>(n, rest, fed). length rest)")
     (auto simp: f_read_def split: if_splits)

declare read_loop.simps [simp del]

text \<open>
  \<open>Inr None\<close> is the source's \<open>return None\<close> in the handler of \<open>IOError\<close>. A file that
  cannot be read fails at \<open>open\<close>, before a block is asked for. The exceptions with which
  \<open>f.read\<close> refuses a block size are no \<open>IOError\<close>s: they leave the function, after the
  file is opened.
\<close>

definition calculate_hash :: "env \<Rightarrow> filesystem \<Rightarrow> path \<Rightarrow> int \<Rightarrow> py_error + digest option" where
  "calculate_hash E fs filepath block_size =
     (case fs filepath of
        Some (File c r w) \<Rightarrow>
          if r then
            (case read_loop block_size c [] of
               Inl e \<Rightarrow> Inl e
             | Inr fed \<Rightarrow> Inr (Some (sha256 E fed)))
          else Inr None
      | _ \<Rightarrow> Inr None)"

subsection \<open>find\_duplicate\_files\<close>

text \<open>
  A Python dictionary keeps its keys in insertion order. \<open>file_hashes\<close> is only looked up,
  so it is a map; \<open>duplicates\<close> is iterated over later, so it is an association list with
  the three operations the source uses on it.
\<close>

type_synonym groups = "(digest \<times> path list) list"

definition dict_contains :: "groups \<Rightarrow> digest \<Rightarrow> bool" where
  "dict_contains d h = (h \<in> fst ` set d)"

definition dict_new_key :: "groups \<Rightarrow> digest \<Rightarrow> path list \<Rightarrow> groups" where
  "dict_new_key d h ps = d @ [(h, ps)]"

definition dict_append :: "groups \<Rightarrow> digest \<Rightarrow> path \<Rightarrow> groups" where
  "dict_append d h p = map (\<lambda>(k, ps). if k = h then (k, ps @ [p]) else (k, ps)) d"

text \<open>The truth value of \<open>file_hash\<close> in \<open>if file_hash:\<close>.\<close>

definition truthy :: "digest option \<Rightarrow> bool" where
  "truthy r = (case r of None \<Rightarrow> False | Some h \<Rightarrow> h \<noteq> [])"

type_synonym scan_state = "(digest \<rightharpoonup> path) \<times> groups"

text \<open>The body of the inner loop, for one \<open>file_path\<close>.\<close>

definition process_file :: "env \<Rightarrow> filesystem \<Rightarrow> scan_state \<Rightarrow> path \<Rightarrow> py_error + scan_state" where
  "process_file E fs s file_path =
     (case os_path_getsize fs file_path of
        Inl e \<Rightarrow> Inl (OSError e file_path)
      | Inr size_bytes \<Rightarrow>
          if size_bytes > 0 then
            (case calculate_hash E fs file_path 65536 of
               Inl e \<Rightarrow> Inl e
             | Inr None \<Rightarrow> Inr s
             | Inr (Some file_hash) \<Rightarrow>
                 if truthy (Some file_hash) then
                   (case fst s file_hash of
                      Some first_path \<Rightarrow>
                        Inr (fst s,
                             dict_append
                               (if \<not> dict_contains (snd s) file_hash
                                then dict_new_key (snd s) file_hash [first_path]
                                else snd s)
                               file_hash file_path)
                    | None \<Rightarrow> Inr ((fst s)(file_hash \<mapsto> file_path), snd s))
                 else Inr s)
          else Inr s)"

text \<open>\<open>for filename in filenames\<close>.\<close>

fun filenames_loop :: "env \<Rightarrow> filesystem \<Rightarrow> path \<Rightarrow> path list \<Rightarrow> scan_state \<Rightarrow> py_error + scan_state" where
  "filenames_loop E fs dirpath [] s = Inr s"
| "filenames_loop E fs dirpath (filename # filenames) s =
     (case process_file E fs s (os_path_join dirpath filename) of
        Inl e \<Rightarrow> Inl e
      | Inr s' \<Rightarrow> filenames_loop E fs dirpath filenames s')"

text \<open>\<open>for dirpath, _, filenames in os.walk(folder_path)\<close>.\<close>

fun walk_loop :: "env \<Rightarrow> filesystem \<Rightarrow> (path \<times> path list \<times> path list) list \<Rightarrow> scan_state \<Rightarrow> py_error + scan_state" where
  "walk_loop E fs [] s = Inr s"
| "walk_loop E fs ((dirpath, dirnames, filenames) # triples) s =
     (case filenames_loop E fs dirpath filenames s of
        Inl e \<Rightarrow> Inl e
      | Inr s' \<Rightarrow> walk_loop E fs triples s')"

text \<open>The result is the dialogs shown and the returned dictionary.\<close>

definition find_duplicate_files :: "env \<Rightarrow> filesystem \<Rightarrow> path \<Rightarrow> py_error + (event list \<times> groups)" where
  "find_duplicate_files E fs folder_path =
     (if \<not> os_path_isdir fs folder_path then Inr ([Error_Invalid_Directory], [])
      else
        (case walk_loop E fs (os_walk E folder_path) (Map.empty, []) of
           Inl e \<Rightarrow> Inl e
         | Inr s \<Rightarrow> Inr ([], snd s)))"

subsection \<open>delete\_duplicates\<close>

record del_state =
  files :: filesystem
  deleted_count :: nat
  space_saved :: nat
  shown :: "event list"

text \<open>The body of the inner loop: the \<open>try\<close> block and its handler of \<open>OSError\<close>.\<close>

definition delete_file :: "del_state \<Rightarrow> path \<Rightarrow> del_state" where
  "delete_file d duplicate_file =
     (case os_path_getsize (files d) duplicate_file of
        Inl e \<Rightarrow> d\<lparr>shown := shown d @ [Error_Deleting duplicate_file e]\<rparr>
      | Inr file_size \<Rightarrow>
          (case os_remove (files d) duplicate_file of
             Inl e \<Rightarrow> d\<lparr>shown := shown d @ [Error_Deleting duplicate_file e]\<rparr>
           | Inr fs' \<Rightarrow>
               d\<lparr>files := fs',
                 deleted_count := deleted_count d + 1,
                 space_saved := space_saved d + file_size,
                 shown := shown d @ [Deleted duplicate_file]\<rparr>))"

text \<open>\<open>for duplicate_file in file_paths[1:]\<close>.\<close>

fun delete_paths :: "del_state \<Rightarrow> path list \<Rightarrow> del_state" where
  "delete_paths d [] = d"
| "delete_paths d (duplicate_file # rest) = delete_paths (delete_file d duplicate_file) rest"

text \<open>
  \<open>for file_hash, file_paths in duplicates.items()\<close>. \<open>file_paths[0]\<close> raises
  \<open>IndexError\<close> on an empty list; \<open>file_paths[1:]\<close> is the list without its first element.
\<close>

fun groups_loop :: "del_state \<Rightarrow> groups \<Rightarrow> py_error + del_state" where
  "groups_loop d [] = Inr d"
| "groups_loop d ((file_hash, file_paths) # rest) =
     (case file_paths of
        [] \<Rightarrow> Inl IndexError
      | original_file # others \<Rightarrow> groups_loop (delete_paths d others) rest)"

definition delete_duplicates :: "filesystem \<Rightarrow> groups \<Rightarrow> py_error + del_state" where
  "delete_duplicates fs duplicates =
     (if duplicates = [] then
        Inr \<lparr>files = fs, deleted_count = 0, space_saved = 0, shown = [Info_No_Duplicates]\<rparr>
      else groups_loop \<lparr>files = fs, deleted_count = 0, space_saved = 0, shown = []\<rparr> duplicates)"

subsection \<open>main\<close>

text \<open>\<open>sum(len(files) - 1 for files in duplicates_found.values())\<close>.\<close>

definition total_duplicates :: "groups \<Rightarrow> int" where
  "total_duplicates duplicates = sum_list (map (\<lambda>(h, ps). int (length ps) - 1) duplicates)"

text \<open>The paths listed in the confirmation message: \<open>file_paths[1:]\<close> of every group.\<close>

definition slated :: "groups \<Rightarrow> path list" where
  "slated duplicates = concat (map (\<lambda>(h, ps). drop 1 ps) duplicates)"

text \<open>
  \<open>folder_to_scan\<close> is what \<open>askdirectory\<close> returned (the empty string when the dialog was
  dismissed), and the decision is what the user does with the confirmation window. The
  result is the trace of the run and the file system it leaves.
\<close>

definition main :: "env \<Rightarrow> filesystem \<Rightarrow> path \<Rightarrow> decision \<Rightarrow> py_error + (event list \<times> filesystem)" where
  "main E fs folder_to_scan user =
     (if folder_to_scan \<noteq> [] then
        (case find_duplicate_files E fs folder_to_scan of
           Inl e \<Rightarrow> Inl e
         | Inr (dialogs, duplicates_found) \<Rightarrow>
             if duplicates_found \<noteq> [] then
               (case user of
                  Press_Delete \<Rightarrow>
                    (case delete_duplicates fs duplicates_found of
                       Inl e \<Rightarrow> Inl e
                     | Inr d \<Rightarrow>
                         Inr (Scanning folder_to_scan # dialogs
                                @ [Confirm_Deletion (total_duplicates duplicates_found)
                                     (slated duplicates_found)]
                                @ shown d
                                @ [Info_Summary (deleted_count d) (space_saved d)],
                              files d))
                | Press_Cancel \<Rightarrow>
                    Inr (Scanning folder_to_scan # dialogs
                           @ [Confirm_Deletion (total_duplicates duplicates_found)
                                (slated duplicates_found),
                              Info_Cancelled_No_Files_Deleted],
                         fs)
                | Close_Window \<Rightarrow>
                    Inr (Scanning folder_to_scan # dialogs
                           @ [Confirm_Deletion (total_duplicates duplicates_found)
                                (slated duplicates_found)],
                         fs))
             else Inr (Scanning folder_to_scan # dialogs @ [Info_No_Duplicates], fs))
      else Inr ([Info_Cancelled_No_Folder], fs))"

text \<open>
  What the caller of \<open>find_duplicate_files\<close> receives: the exception or the dictionary. The
  dialogs are shown, not returned.
\<close>

definition return_value :: "py_error + (event list \<times> groups) \<Rightarrow> py_error + groups" where
  "return_value r = map_sum (\<lambda>e. e) snd r"

section \<open>Notions used in the statements\<close>

subsection \<open>The scan\<close>

text \<open>A file can be opened and read: what \<open>open\<close> and \<open>f.read\<close> need in \<open>calculate_hash\<close>.\<close>

definition can_read :: "filesystem \<Rightarrow> path \<Rightarrow> bool" where
  "can_read fs p = (case fs p of Some (File c r w) \<Rightarrow> r | _ \<Rightarrow> False)"

text \<open>The file paths of a walk in the order the two loops visit them.\<close>

definition walk_files :: "(path \<times> path list \<times> path list) list \<Rightarrow> path list" where
  "walk_files triples =
     concat (map (\<lambda>(dirpath, dirnames, filenames). map (os_path_join dirpath) filenames) triples)"

text \<open>The loop body run over a list of paths: the two nested loops are this loop over \<open>walk_files\<close>.\<close>

fun files_loop :: "env \<Rightarrow> filesystem \<Rightarrow> path list \<Rightarrow> scan_state \<Rightarrow> py_error + scan_state" where
  "files_loop E fs [] s = Inr s"
| "files_loop E fs (p # ps) s =
     (case process_file E fs s p of Inl e \<Rightarrow> Inl e | Inr s' \<Rightarrow> files_loop E fs ps s')"

text \<open>
  The digest under which the scan files a path, if it files it at all: the path has a
  size, the size is not zero, the hash is available and it is a true value.
\<close>

definition fingerprint :: "env \<Rightarrow> filesystem \<Rightarrow> path \<Rightarrow> digest option" where
  "fingerprint E fs p =
     (case os_path_getsize fs p of
        Inl e \<Rightarrow> None
      | Inr n \<Rightarrow>
          if n = 0 then None
          else (case calculate_hash E fs p 65536 of
                  Inr (Some h) \<Rightarrow> if h = [] then None else Some h
                | _ \<Rightarrow> None))"

text \<open>The paths of a list filed under a digest, in the order of the list.\<close>

definition group_of :: "env \<Rightarrow> filesystem \<Rightarrow> path list \<Rightarrow> digest \<Rightarrow> path list" where
  "group_of E fs ps h = filter (\<lambda>p. fingerprint E fs p = Some h) ps"

text \<open>
  The invariant of the scan after the paths \<open>ps\<close>: \<open>file_hashes\<close> holds the first path of
  every digest seen, and \<open>duplicates\<close> holds, once each, the digests seen twice or more,
  with all their paths.
\<close>

definition scan_inv :: "env \<Rightarrow> filesystem \<Rightarrow> path list \<Rightarrow> scan_state \<Rightarrow> bool" where
  "scan_inv E fs ps s \<longleftrightarrow>
     distinct (map fst (snd s)) \<and>
     (\<forall>h. fst s h = (case group_of E fs ps h of [] \<Rightarrow> None | p # rest \<Rightarrow> Some p)) \<and>
     (\<forall>h. map_of (snd s) h =
          (if 2 \<le> length (group_of E fs ps h) then Some (group_of E fs ps h) else None))"

text \<open>
  In the words of the specification: the paths discovered for a fingerprint are the files
  of the walk that are not empty and whose fingerprint it is, in discovery order.
\<close>

definition discovered :: "env \<Rightarrow> filesystem \<Rightarrow> path \<Rightarrow> digest \<Rightarrow> path list" where
  "discovered E fs root h =
     filter (\<lambda>p. (case os_path_getsize fs p of Inl e \<Rightarrow> False | Inr n \<Rightarrow> 0 < n) \<and>
                 calculate_hash E fs p 65536 = Inr (Some h))
       (walk_files (os_walk E root))"

subsection \<open>The deletion\<close>

text \<open>\<open>os.path.getsize\<close> followed by \<open>os.remove\<close> succeeds on exactly these paths.\<close>

definition deletable :: "filesystem \<Rightarrow> path \<Rightarrow> bool" where
  "deletable fs p = (case fs p of Some (File c r w) \<Rightarrow> w | _ \<Rightarrow> False)"

text \<open>The size of a path as \<open>os.path.getsize\<close> reports it (zero where it raises).\<close>

definition size_of :: "filesystem \<Rightarrow> path \<Rightarrow> nat" where
  "size_of fs p = (case os_path_getsize fs p of Inl e \<Rightarrow> 0 | Inr n \<Rightarrow> n)"

text \<open>The paths that exist in the first file system and no longer in the second.\<close>

definition removed :: "filesystem \<Rightarrow> filesystem \<Rightarrow> path set" where
  "removed fs fs' = {p. fs p \<noteq> None \<and> fs' p = None}"

text \<open>
  A DuplicateSet in the sense of the specification: a dictionary (no key twice) of groups
  of at least two paths, where no path occurs twice, in a group or in two groups; every
  path is discovered once and has one fingerprint.
\<close>

definition duplicate_set :: "groups \<Rightarrow> bool" where
  "duplicate_set d \<longleftrightarrow>
     distinct (map fst d) \<and> distinct (concat (map snd d)) \<and> (\<forall>g \<in> snd ` set d. 2 \<le> length g)"

subsection \<open>A small directory\<close>

text \<open>
  The folder \<open>d\<close> holds \<open>a\<close> and \<open>b\<close> with the same content, \<open>c\<close> with another, an empty
  file \<open>e\<close>, a file \<open>u\<close> that cannot be read, and a folder \<open>s\<close> with a file \<open>b\<close> of its
  own content and a copy \<open>c\<close> of \<open>d/c\<close>, whose removal is permitted or not. The digest
  function of the example puts a letter in front of the content, so it has no collisions
  and no empty digest.
\<close>

definition example_env :: env where
  "example_env =
     \<lparr>sha256 = (\<lambda>b. CHR ''h'' # b),
      os_walk = (\<lambda>top. if top = ''d''
                        then [(''d'', [''s''], [''a'', ''b'', ''c'', ''e'', ''u'']),
                              (''d/s'', [], [''b'', ''c''])]
                        else [])\<rparr>"

definition example_fs :: "bool \<Rightarrow> filesystem" where
  "example_fs w =
     [''d'' \<mapsto> Directory 4096,
      ''d/a'' \<mapsto> File ''x'' True True,
      ''d/b'' \<mapsto> File ''x'' True True,
      ''d/c'' \<mapsto> File ''y'' True True,
      ''d/e'' \<mapsto> File [] True True,
      ''d/u'' \<mapsto> File ''x'' False True,
      ''d/s'' \<mapsto> Directory 4096,
      ''d/s/b'' \<mapsto> File ''xx'' True True,
      ''d/s/c'' \<mapsto> File ''y'' True w]"

definition example_groups :: groups where
  "example_groups = [(''hx'', [''d/a'', ''d/b'']), (''hy'', [''d/c'', ''d/s/c''])]"

text \<open>
  A digest function with digests of 64 characters, as \<open>hexdigest\<close> has: the last byte of
  the content, 64 times. Like every function into strings of one length it has collisions.
\<close>

definition fixed_length_env :: env where
  "fixed_length_env =
     \<lparr>sha256 = (\<lambda>b. replicate 64 (last (CHR ''0'' # b))), os_walk = (\<lambda>folder. [])\<rparr>"

text \<open>A walk of the same folder that lists no two files of the same content.\<close>

definition example_env_unique :: env where
  "example_env_unique =
     \<lparr>sha256 = (\<lambda>b. CHR ''h'' # b),
      os_walk = (\<lambda>top. if top = ''d'' then [(''d'', [''s''], [''a'', ''c'', ''e'']), (''d/s'', [], [''b''])]
                        else [])\<rparr>"

text \<open>
  A walk that lists, between \<open>a\<close> and \<open>b\<close>, a name \<open>x\<close> that names nothing when the scan
  reaches it: a file removed since the folder was listed, or a dangling symbolic link.
\<close>

definition stale_env :: env where
  "stale_env =
     \<lparr>sha256 = (\<lambda>b. CHR ''h'' # b),
      os_walk = (\<lambda>folder. [(folder, [], [''a'', ''x'', ''b''])])\<rparr>"

section \<open>Properties of the loops\<close>

subsection \<open>Reading a file in blocks\<close>

lemma read_loop_zero: "read_loop 0 rest fed = Inr fed"
  by (subst read_loop.simps) (simp add: f_read_def)

lemma read_loop_refuses:
  "n < - 1 \<or> 2 ^ 63 - 33 \<le> n \<Longrightarrow>
     read_loop n rest fed = Inl ValueError \<or> read_loop n rest fed = Inl OverflowError"
  by (subst (1 2) read_loop.simps) (auto simp: f_read_def)

lemma read_loop_feeds_all:
  assumes "- 1 \<le> n" and "n \<noteq> 0" and "n < 2 ^ 63 - 33"
  shows "read_loop n rest fed = Inr (fed @ rest)"
proof (induction "length rest" arbitrary: rest fed rule: less_induct)
  case less
  show ?case
  proof (cases "rest = []")
    case True
    with assms show ?thesis
      by (subst read_loop.simps) (simp add: f_read_def)
  next
    case False
    show ?thesis
    proof (cases "n = - 1")
      case True
      have "read_loop n rest fed = read_loop n [] (fed @ rest)"
        using True False by (subst read_loop.simps) (simp add: f_read_def)
      also have "\<dots> = Inr ((fed @ rest) @ [])"
        using False by (intro less) simp
      finally show ?thesis by simp
    next
      case not_all: False
      with assms have pos: "0 < n" by simp
      then have data: "take (nat n) rest \<noteq> []"
        using False by simp
      have shorter: "length (drop (nat n) rest) < length rest"
        using pos False by simp
      have "read_loop n rest fed = read_loop n (drop (nat n) rest) (fed @ take (nat n) rest)"
        using assms not_all pos data by (subst read_loop.simps) (simp add: f_read_def)
      also have "\<dots> = Inr ((fed @ take (nat n) rest) @ drop (nat n) rest)"
        using shorter by (rule less)
      finally show ?thesis by simp
    qed
  qed
qed

lemma calculate_hash_readable:
  "fs p = Some (File c True w) \<Longrightarrow> - 1 \<le> n \<Longrightarrow> n \<noteq> 0 \<Longrightarrow> n < 2 ^ 63 - 33 \<Longrightarrow>
     calculate_hash E fs p n = Inr (Some (sha256 E c))"
  by (simp add: calculate_hash_def read_loop_feeds_all)

text \<open>With the block size of the scan the hash always returns.\<close>

lemma calculate_hash_default:
  "calculate_hash E fs p 65536 =
     Inr (case fs p of
            Some (File c r w) \<Rightarrow> if r then Some (sha256 E c) else None
          | _ \<Rightarrow> None)"
  by (simp add: calculate_hash_def read_loop_feeds_all split: option.splits node.splits)

lemma calculate_hash_default_returns: "calculate_hash E fs p 65536 \<noteq> Inl e"
  by (simp add: calculate_hash_default)

lemma calculate_hash_None_iff: "calculate_hash E fs p n = Inr None \<longleftrightarrow> \<not> can_read fs p"
  by (auto simp: calculate_hash_def can_read_def split: option.splits node.splits sum.splits)

subsection \<open>The two loops of the scan and their invariant\<close>

lemma filenames_loop_files_loop:
  "filenames_loop E fs dirpath filenames s = files_loop E fs (map (os_path_join dirpath) filenames) s"
  by (induction filenames arbitrary: s) (auto split: sum.splits)

lemma files_loop_append:
  "files_loop E fs (xs @ ys) s =
     (case files_loop E fs xs s of Inl e \<Rightarrow> Inl e | Inr s' \<Rightarrow> files_loop E fs ys s')"
  by (induction xs arbitrary: s) (auto split: sum.splits)

lemma walk_loop_files_loop:
  "walk_loop E fs triples s = files_loop E fs (walk_files triples) s"
proof (induction triples arbitrary: s)
  case Nil
  show ?case by (simp add: walk_files_def)
next
  case (Cons t triples)
  obtain dirpath dirnames filenames where t: "t = (dirpath, dirnames, filenames)"
    by (cases t)
  have wf: "walk_files (t # triples) = map (os_path_join dirpath) filenames @ walk_files triples"
    by (simp add: walk_files_def t)
  show ?case
    by (simp add: t wf [unfolded t] files_loop_append filenames_loop_files_loop Cons.IH
             split: sum.splits)
qed

lemma map_fst_dict_append: "map fst (dict_append d h p) = map fst d"
  by (induction d) (auto simp: dict_append_def)

lemma map_of_dict_append:
  "map_of (dict_append d h p) k =
     (if k = h then map_option (\<lambda>ps. ps @ [p]) (map_of d h) else map_of d k)"
  by (induction d) (auto simp: dict_append_def)

lemma map_of_dict_new_key:
  "\<not> dict_contains d h \<Longrightarrow> map_of (dict_new_key d h ps) k = (if k = h then Some ps else map_of d k)"
  by (induction d) (auto simp: dict_new_key_def dict_contains_def)

lemma dict_contains_map_of: "dict_contains d h \<longleftrightarrow> map_of d h \<noteq> None"
  by (simp add: dict_contains_def map_of_eq_None_iff)

lemma group_of_snoc:
  "group_of E fs (ps @ [p]) h =
     (if fingerprint E fs p = Some h then group_of E fs ps h @ [p] else group_of E fs ps h)"
  by (simp add: group_of_def)

lemma process_file_cases:
  "process_file E fs s p =
     (case os_path_getsize fs p of
        Inl e \<Rightarrow> Inl (OSError e p)
      | Inr n \<Rightarrow>
          (case fingerprint E fs p of
             None \<Rightarrow> Inr s
           | Some h \<Rightarrow>
               (case fst s h of
                  None \<Rightarrow> Inr ((fst s)(h \<mapsto> p), snd s)
                | Some q \<Rightarrow>
                    Inr (fst s,
                         dict_append
                           (if dict_contains (snd s) h then snd s else dict_new_key (snd s) h [q])
                           h p))))"
  using calculate_hash_default_returns [of E fs p]
  by (auto simp: process_file_def fingerprint_def truthy_def split: sum.splits option.splits)

lemma scan_inv_initial: "scan_inv E fs [] (Map.empty, [])"
  by (simp add: scan_inv_def group_of_def)

lemma scan_inv_step:
  assumes inv: "scan_inv E fs ps s" and step: "process_file E fs s p = Inr s'"
  shows "scan_inv E fs (ps @ [p]) s'"
proof -
  from inv have dist: "distinct (map fst (snd s))"
    and first: "\<And>h. fst s h = (case group_of E fs ps h of [] \<Rightarrow> None | q # rest \<Rightarrow> Some q)"
    and grp: "\<And>h. map_of (snd s) h =
          (if 2 \<le> length (group_of E fs ps h) then Some (group_of E fs ps h) else None)"
    by (simp_all add: scan_inv_def)
  from step obtain n where size: "os_path_getsize fs p = Inr n"
    by (auto simp: process_file_cases split: sum.splits)
  show ?thesis
  proof (cases "fingerprint E fs p")
    case None
    with step size have "s' = s"
      by (simp add: process_file_cases)
    with inv None show ?thesis
      by (simp add: scan_inv_def group_of_snoc)
  next
    case (Some h0)
    show ?thesis
    proof (cases "fst s h0")
      case None
      with first [of h0] have empty: "group_of E fs ps h0 = []"
        by (simp split: list.splits)
      from step size Some None have s': "s' = ((fst s)(h0 \<mapsto> p), snd s)"
        by (simp add: process_file_cases)
      show ?thesis
        unfolding scan_inv_def s'
        using dist first grp empty Some
        by (auto simp: group_of_snoc)
    next
      case (Some q)
      with first [of h0] obtain rest where g: "group_of E fs ps h0 = q # rest"
        by (auto split: list.splits)
      show ?thesis
      proof (cases "dict_contains (snd s) h0")
        case True
        from step size \<open>fingerprint E fs p = Some h0\<close> Some True
        have s': "s' = (fst s, dict_append (snd s) h0 p)"
          by (simp add: process_file_cases)
        show ?thesis
          unfolding scan_inv_def s'
          using dist first grp g \<open>fingerprint E fs p = Some h0\<close> True
          by (auto simp: group_of_snoc map_fst_dict_append map_of_dict_append
                dict_contains_map_of split: if_splits)
      next
        case False
        with grp [of h0] g have "\<not> Suc 0 \<le> length rest"
          by (auto simp: dict_contains_map_of split: if_splits)
        then have rest: "rest = []"
          by (cases rest) simp_all
        from step size \<open>fingerprint E fs p = Some h0\<close> Some False
        have s': "s' = (fst s, dict_append (dict_new_key (snd s) h0 [q]) h0 p)"
          by (simp add: process_file_cases)
        have keys: "distinct (map fst (dict_new_key (snd s) h0 [q]))"
          using dist False by (simp add: dict_new_key_def dict_contains_def)
        show ?thesis
          unfolding scan_inv_def s'
          using keys first grp g rest \<open>fingerprint E fs p = Some h0\<close> False
          by (auto simp: group_of_snoc map_fst_dict_append map_of_dict_append
                map_of_dict_new_key split: if_splits)
      qed
    qed
  qed
qed

lemma scan_inv_files_loop:
  "scan_inv E fs pre s \<Longrightarrow> files_loop E fs ps s = Inr s' \<Longrightarrow> scan_inv E fs (pre @ ps) s'"
proof (induction ps arbitrary: pre s)
  case Nil
  then show ?case by simp
next
  case (Cons p ps)
  from Cons.prems(2) obtain s1 where one: "process_file E fs s p = Inr s1"
    and more: "files_loop E fs ps s1 = Inr s'"
    by (auto split: sum.splits)
  from Cons.IH [OF scan_inv_step [OF Cons.prems(1) one] more] show ?case
    by simp
qed

lemma walk_loop_scan_inv:
  "walk_loop E fs triples (Map.empty, []) = Inr s \<Longrightarrow> scan_inv E fs (walk_files triples) s"
  using scan_inv_files_loop [OF scan_inv_initial, of E fs "walk_files triples" s]
  by (simp add: walk_loop_files_loop)

subsection \<open>What the scan files\<close>

lemma fingerprint_Some:
  "fingerprint E fs p = Some h \<longleftrightarrow>
     (\<exists>n. os_path_getsize fs p = Inr n \<and> 0 < n) \<and>
     calculate_hash E fs p 65536 = Inr (Some h) \<and> h \<noteq> []"
  by (auto simp: fingerprint_def split: sum.splits option.splits)

lemma scan_inv_index_member:
  assumes "scan_inv E fs ps s" and "fst s h = Some p"
  shows "p \<in> set ps \<and> fingerprint E fs p = Some h"
proof -
  from assms obtain rest where "group_of E fs ps h = p # rest"
    by (auto simp: scan_inv_def split: list.splits)
  then have "p \<in> set (filter (\<lambda>p. fingerprint E fs p = Some h) ps)"
    by (simp add: group_of_def)
  then show ?thesis by simp
qed

lemma scan_inv_group_member:
  assumes "scan_inv E fs ps s" and "(h, g) \<in> set (snd s)"
  shows "g = group_of E fs ps h \<and> 2 \<le> length g"
proof -
  from assms(1) have dist: "distinct (map fst (snd s))"
    and grp: "map_of (snd s) h =
      (if 2 \<le> length (group_of E fs ps h) then Some (group_of E fs ps h) else None)"
    by (simp_all add: scan_inv_def)
  from dist assms(2) have "map_of (snd s) h = Some g"
    by (rule map_of_is_SomeI)
  with grp show ?thesis
    by (simp split: if_splits)
qed

lemma scan_members_fingerprinted:
  assumes "walk_loop E fs triples (Map.empty, []) = Inr (file_hashes, duplicates)"
    and "p \<in> ran file_hashes \<union> \<Union> (set ` snd ` set duplicates)"
  shows "\<exists>h. fingerprint E fs p = Some h"
proof -
  from assms(1) have inv: "scan_inv E fs (walk_files triples) (file_hashes, duplicates)"
    by (rule walk_loop_scan_inv)
  from assms(2) show ?thesis
  proof
    assume "p \<in> ran file_hashes"
    then obtain h where "file_hashes h = Some p"
      by (auto simp: ran_def)
    with scan_inv_index_member [OF inv, of h p] show ?thesis by auto
  next
    assume "p \<in> \<Union> (set ` snd ` set duplicates)"
    then obtain h g where "(h, g) \<in> set duplicates" and "p \<in> set g"
      by auto
    with scan_inv_group_member [OF inv, of h g] show ?thesis
      by (auto simp: group_of_def)
  qed
qed

lemma group_of_discovered:
  assumes "\<forall>b. sha256 E b \<noteq> []"
  shows "group_of E fs (walk_files (os_walk E root)) h = discovered E fs root h"
proof -
  have "fingerprint E fs p = Some h \<longleftrightarrow>
        (case os_path_getsize fs p of Inl e \<Rightarrow> False | Inr n \<Rightarrow> 0 < n) \<and>
        calculate_hash E fs p 65536 = Inr (Some h)" for p
    using assms
    by (auto simp: fingerprint_def calculate_hash_def
             split: sum.splits option.splits node.splits if_splits)
  then show ?thesis
    by (simp add: group_of_def discovered_def)
qed

lemma find_duplicate_files_directory:
  assumes "os_path_isdir fs root" and "find_duplicate_files E fs root = Inr (dialogs, duplicates)"
  shows "dialogs = [] \<and>
         (\<exists>file_hashes. walk_loop E fs (os_walk E root) (Map.empty, []) = Inr (file_hashes, duplicates))"
  using assms by (auto simp: find_duplicate_files_def split: sum.splits)

lemma main_no_duplicates:
  "folder \<noteq> [] \<Longrightarrow> find_duplicate_files E fs folder = Inr (dialogs, []) \<Longrightarrow>
     main E fs folder user = Inr (Scanning folder # dialogs @ [Info_No_Duplicates], fs)"
  by (simp add: main_def)

lemma calculate_hash_digest_only:
  "sha256 E = sha256 E' \<Longrightarrow> calculate_hash E fs p n = calculate_hash E' fs p n"
  by (simp add: calculate_hash_def split: option.splits node.splits sum.splits)

subsection \<open>When the scan raises, and what it shows\<close>

lemma process_file_raises: "(\<exists>e. process_file E fs s p = Inl e) \<longleftrightarrow> fs p = None"
  by (auto simp: process_file_cases os_path_getsize_def split: option.splits node.splits sum.splits)

lemma files_loop_raises:
  "(\<exists>e. files_loop E fs ps s = Inl e) \<longleftrightarrow> (\<exists>p \<in> set ps. fs p = None)"
proof (induction ps arbitrary: s)
  case Nil
  show ?case by simp
next
  case (Cons p ps)
  show ?case
  proof (cases "process_file E fs s p")
    case (Inl e)
    with process_file_raises [of E fs s p] show ?thesis by auto
  next
    case (Inr s')
    with process_file_raises [of E fs s p] have "fs p \<noteq> None" by auto
    with Inr Cons.IH [of s'] show ?thesis by auto
  qed
qed

lemma find_duplicate_files_raises:
  "(\<exists>e. find_duplicate_files E fs root = Inl e) \<longleftrightarrow>
     os_path_isdir fs root \<and> (\<exists>p \<in> set (walk_files (os_walk E root)). fs p = None)"
  using files_loop_raises [of E fs "walk_files (os_walk E root)" "(Map.empty, [])"]
  by (auto simp: find_duplicate_files_def walk_loop_files_loop split: sum.splits)

lemma find_duplicate_files_dialogs:
  "find_duplicate_files E fs root = Inr (dialogs, duplicates) \<Longrightarrow>
     (dialogs = [] \<and> os_path_isdir fs root) \<or>
     (dialogs = [Error_Invalid_Directory] \<and> duplicates = [] \<and> \<not> os_path_isdir fs root)"
  by (auto simp: find_duplicate_files_def split: sum.splits if_splits)

lemma find_duplicate_files_invalid:
  "\<not> os_path_isdir fs root \<Longrightarrow> find_duplicate_files E fs root = Inr ([Error_Invalid_Directory], [])"
  by (simp add: find_duplicate_files_def)

lemma main_cancel:
  "folder \<noteq> [] \<Longrightarrow> find_duplicate_files E fs folder = Inr (dialogs, duplicates) \<Longrightarrow>
   duplicates \<noteq> [] \<Longrightarrow>
     main E fs folder Press_Cancel =
       Inr (Scanning folder # dialogs @
              [Confirm_Deletion (total_duplicates duplicates) (slated duplicates),
               Info_Cancelled_No_Files_Deleted], fs) \<and>
     main E fs folder Close_Window =
       Inr (Scanning folder # dialogs @
              [Confirm_Deletion (total_duplicates duplicates) (slated duplicates)], fs)"
  by (simp add: main_def)

subsection \<open>The deletion loops in closed form\<close>

lemma delete_file_deletable:
  "deletable (files d) p \<Longrightarrow>
     delete_file d p =
       d\<lparr>files := (files d)(p := None),
         deleted_count := deleted_count d + 1,
         space_saved := space_saved d + size_of (files d) p,
         shown := shown d @ [Deleted p]\<rparr>"
  by (auto simp: delete_file_def deletable_def size_of_def os_path_getsize_def os_remove_def
           split: option.splits node.splits)

lemma delete_file_not_deletable:
  "\<not> deletable (files d) p \<Longrightarrow>
     \<exists>e. delete_file d p = d\<lparr>shown := shown d @ [Error_Deleting p e]\<rparr>"
  by (auto simp: delete_file_def deletable_def os_path_getsize_def os_remove_def
           split: option.splits node.splits)

lemma deletable_after_removal:
  "deletable (fs(p := None)) q \<longleftrightarrow> q \<noteq> p \<and> deletable fs q"
  by (simp add: deletable_def)

lemma size_of_after_removal: "q \<noteq> p \<Longrightarrow> size_of (fs(p := None)) q = size_of fs q"
  by (simp add: size_of_def os_path_getsize_def)

lemma delete_paths_closed_form:
  "files (delete_paths d ps) = (\<lambda>q. if q \<in> set ps \<and> deletable (files d) q then None else files d q) \<and>
   deleted_count (delete_paths d ps) = deleted_count d + card {q \<in> set ps. deletable (files d) q} \<and>
   space_saved (delete_paths d ps) =
     space_saved d + sum (size_of (files d)) {q \<in> set ps. deletable (files d) q}"
proof (induction ps arbitrary: d)
  case Nil
  show ?case by simp
next
  case (Cons p ps)
  show ?case
  proof (cases "deletable (files d) p")
    case False
    then obtain e where step: "delete_file d p = d\<lparr>shown := shown d @ [Error_Deleting p e]\<rparr>"
      using delete_file_not_deletable by blast
    have same: "{q \<in> set (p # ps). deletable (files d) q} = {q \<in> set ps. deletable (files d) q}"
      using False by auto
    show ?thesis
      using Cons.IH [of "delete_file d p"] False
      by (simp only: delete_paths.simps same) (auto simp: step)
  next
    case True
    let ?d1 = "delete_file d p"
    let ?A = "{q \<in> set ps. deletable (files ?d1) q}"
    have f1: "files ?d1 = (files d)(p := None)"
      and c1: "deleted_count ?d1 = deleted_count d + 1"
      and s1: "space_saved ?d1 = space_saved d + size_of (files d) p"
      by (simp_all add: delete_file_deletable [OF True])
    have A: "?A = {q \<in> set ps. deletable (files d) q} - {p}"
      by (auto simp: f1 deletable_after_removal)
    have B: "{q \<in> set (p # ps). deletable (files d) q} = insert p ?A"
      using True by (auto simp: f1 deletable_after_removal)
    have fin: "finite ?A" and notin: "p \<notin> ?A"
      by (simp_all add: f1 deletable_after_removal)
    have sizes: "sum (size_of (files ?d1)) ?A = sum (size_of (files d)) ?A"
      by (rule sum.cong) (auto simp: f1 deletable_after_removal size_of_after_removal)
    have "files (delete_paths ?d1 ps) =
          (\<lambda>q. if q \<in> set ps \<and> (q \<noteq> p \<and> deletable (files d) q) then None
               else ((files d)(p := None)) q)"
      using Cons.IH [of ?d1] by (simp only: f1 deletable_after_removal)
    then have "files (delete_paths d (p # ps)) =
          (\<lambda>q. if q \<in> set (p # ps) \<and> deletable (files d) q then None else files d q)"
      using True by (simp only: delete_paths.simps) (rule ext, simp)
    moreover have "deleted_count (delete_paths d (p # ps)) =
          deleted_count d + card {q \<in> set (p # ps). deletable (files d) q}"
      using Cons.IH [of ?d1] fin notin
      by (simp only: delete_paths.simps B) (simp add: c1)
    moreover have "space_saved (delete_paths d (p # ps)) =
          space_saved d + sum (size_of (files d)) {q \<in> set (p # ps). deletable (files d) q}"
      using Cons.IH [of ?d1] fin notin sizes
      by (simp only: delete_paths.simps B) (simp add: s1)
    ultimately show ?thesis by blast
  qed
qed

lemma delete_paths_append: "delete_paths d (xs @ ys) = delete_paths (delete_paths d xs) ys"
  by (induction xs arbitrary: d) simp_all

lemma groups_loop_total:
  "\<forall>g \<in> snd ` set gs. g \<noteq> [] \<Longrightarrow> groups_loop d gs = Inr (delete_paths d (slated gs))"
proof (induction gs arbitrary: d)
  case Nil
  show ?case by (simp add: slated_def)
next
  case (Cons hg gs)
  obtain h g where hg: "hg = (h, g)" by (cases hg)
  with Cons.prems obtain p ps where g: "g = p # ps"
    by (cases g) auto
  from Cons.prems have "\<forall>g \<in> snd ` set gs. g \<noteq> []" by simp
  from Cons.IH [OF this] show ?case
    by (simp add: hg g slated_def delete_paths_append)
qed

lemma groups_loop_Inr:
  "groups_loop d gs = Inr d' \<Longrightarrow> d' = delete_paths d (slated gs)"
proof (induction gs arbitrary: d)
  case Nil
  then show ?case by (simp add: slated_def)
next
  case (Cons hg gs)
  obtain h g where hg: "hg = (h, g)" by (cases hg)
  with Cons.prems obtain p ps where g: "g = p # ps"
    by (cases g) auto
  from Cons.prems have "groups_loop (delete_paths d ps) gs = Inr d'"
    by (simp add: hg g)
  from Cons.IH [OF this] show ?case
    by (simp add: hg g slated_def delete_paths_append)
qed

lemma set_slated_subset: "set (slated d) \<subseteq> set (concat (map snd d))"
  by (induction d) (auto simp: slated_def dest: in_set_dropD)

lemma slated_Cons: "slated ((h, g) # d) = drop 1 g @ slated d"
  by (simp add: slated_def)

lemma original_not_slated:
  "distinct (concat (map snd d)) \<Longrightarrow> (h, p # ps) \<in> set d \<Longrightarrow> p \<notin> set (slated d)"
proof (induction d)
  case Nil
  then show ?case by simp
next
  case (Cons hg d)
  obtain h' g' where hg: "hg = (h', g')" by (cases hg)
  from Cons.prems(1) have dg: "distinct g'" and dd: "distinct (concat (map snd d))"
    and disj: "set g' \<inter> set (concat (map snd d)) = {}"
    by (simp_all add: hg)
  from Cons.prems(2) consider "g' = p # ps" | "(h, p # ps) \<in> set d"
    by (auto simp: hg)
  then show ?case
  proof cases
    case 1
    with dg have "p \<notin> set (drop 1 g')" by simp
    moreover from 1 disj set_slated_subset [of d] have "p \<notin> set (slated d)" by auto
    ultimately show ?thesis by (simp add: hg slated_Cons)
  next
    case 2
    then have "p \<in> set (concat (map snd d))" by force
    with disj have "p \<notin> set g'" by auto
    then have "p \<notin> set (drop 1 g')" by (auto dest: in_set_dropD)
    with Cons.IH [OF dd 2] show ?thesis by (simp add: hg slated_Cons)
  qed
qed

lemma group_tail_slated: "(h, g) \<in> set d \<Longrightarrow> set (drop 1 g) \<subseteq> set (slated d)"
  by (induction d) (auto simp: slated_def)

lemma deletable_exists: "deletable fs p \<Longrightarrow> fs p \<noteq> None"
  by (auto simp: deletable_def split: option.splits)

lemma delete_duplicates_closed_form:
  assumes "\<forall>g \<in> snd ` set duplicates. g \<noteq> []"
  shows "\<exists>d. delete_duplicates fs duplicates = Inr d \<and>
    files d = (\<lambda>q. if q \<in> set (slated duplicates) \<and> deletable fs q then None else fs q) \<and>
    deleted_count d = card {q \<in> set (slated duplicates). deletable fs q} \<and>
    space_saved d = sum (size_of fs) {q \<in> set (slated duplicates). deletable fs q}"
proof (cases "duplicates = []")
  case True
  then show ?thesis
    by (simp add: delete_duplicates_def slated_def)
next
  case False
  let ?d0 = "\<lparr>files = fs, deleted_count = 0, space_saved = 0, shown = []\<rparr>"
  have "delete_duplicates fs duplicates = Inr (delete_paths ?d0 (slated duplicates))"
    using False groups_loop_total [OF assms, of ?d0] by (simp add: delete_duplicates_def)
  with delete_paths_closed_form [of ?d0 "slated duplicates"] show ?thesis
    by (simp cong: if_cong)
qed

lemma removed_closed_form:
  "removed fs (\<lambda>q. if q \<in> set ps \<and> deletable fs q then None else fs q) =
     {q \<in> set ps. deletable fs q}"
  by (auto simp: removed_def dest: deletable_exists)

text \<open>A scan that meets no path twice returns a DuplicateSet.\<close>

lemma scan_duplicate_set:
  assumes scan: "walk_loop E fs triples (Map.empty, []) = Inr (file_hashes, duplicates)"
    and walk: "distinct (walk_files triples)"
  shows "duplicate_set duplicates"
proof -
  let ?ps = "walk_files triples"
  from scan have inv: "scan_inv E fs ?ps (file_hashes, duplicates)"
    by (rule walk_loop_scan_inv)
  then have keys: "distinct (map fst duplicates)"
    by (simp add: scan_inv_def)
  have mem: "g = group_of E fs ?ps h \<and> 2 \<le> length g" if "(h, g) \<in> set duplicates" for h g
    using scan_inv_group_member [OF inv] that by simp
  have fp: "fingerprint E fs p = Some h" if "(h, g) \<in> set duplicates" and "p \<in> set g" for h g p
    using mem [OF that(1)] that(2) by (simp add: group_of_def)
  have inj: "inj_on snd (set duplicates)"
  proof (rule inj_onI)
    fix x y assume x: "x \<in> set duplicates" and y: "y \<in> set duplicates" and eq: "snd x = snd y"
    obtain h g where xe: "x = (h, g)" by (cases x)
    obtain h' g' where ye: "y = (h', g')" by (cases y)
    from mem [of h g] x xe obtain p where "p \<in> set g"
      by (cases g) auto
    with fp [of h g p] fp [of h' g' p] x y xe ye eq show "x = y"
      by simp
  qed
  from keys have "distinct duplicates"
    by (simp add: distinct_map)
  with inj have d1: "distinct (map snd duplicates)"
    by (simp add: distinct_map)
  have d2: "distinct g" if "g \<in> set (map snd duplicates)" for g
  proof -
    from that obtain h where "(h, g) \<in> set duplicates" by auto
    from mem [OF this] have "g = filter (\<lambda>p. fingerprint E fs p = Some h) ?ps"
      by (simp add: group_of_def)
    with walk show ?thesis by simp
  qed
  have d3: "set g \<inter> set g' = {}"
    if "g \<in> set (map snd duplicates)" and "g' \<in> set (map snd duplicates)" and "g \<noteq> g'"
    for g g'
  proof -
    from that obtain h h' where a: "(h, g) \<in> set duplicates" and b: "(h', g') \<in> set duplicates"
      by auto
    have "h \<noteq> h'"
      using mem [OF a] mem [OF b] that(3) by auto
    with fp [OF a] fp [OF b] show ?thesis
      by fastforce
  qed
  from d1 d2 d3 have "distinct (concat (map snd duplicates))"
    by (rule distinct_concat)
  with keys mem show ?thesis
    by (auto simp: duplicate_set_def)
qed

subsection \<open>The small directory, evaluated\<close>

lemma example_walk_files:
  "walk_files (os_walk example_env ''d'') = [''d/a'', ''d/b'', ''d/c'', ''d/e'', ''d/u'', ''d/s/b'', ''d/s/c'']"
  by (simp add: walk_files_def example_env_def os_path_join_def)

lemma example_fingerprints:
  "fingerprint example_env (example_fs w) ''d/a'' = Some ''hx''"
  "fingerprint example_env (example_fs w) ''d/b'' = Some ''hx''"
  "fingerprint example_env (example_fs w) ''d/c'' = Some ''hy''"
  "fingerprint example_env (example_fs w) ''d/e'' = None"
  "fingerprint example_env (example_fs w) ''d/u'' = None"
  "fingerprint example_env (example_fs w) ''d/s/b'' = Some ''hxx''"
  "fingerprint example_env (example_fs w) ''d/s/c'' = Some ''hy''"
  by (simp_all add: fingerprint_def os_path_getsize_def calculate_hash_default
        example_env_def example_fs_def)

lemma example_sizes:
  "os_path_getsize (example_fs w) ''d/a'' = Inr 1"
  "os_path_getsize (example_fs w) ''d/b'' = Inr 1"
  "os_path_getsize (example_fs w) ''d/c'' = Inr 1"
  "os_path_getsize (example_fs w) ''d/e'' = Inr 0"
  "os_path_getsize (example_fs w) ''d/u'' = Inr 1"
  "os_path_getsize (example_fs w) ''d/s/b'' = Inr 2"
  "os_path_getsize (example_fs w) ''d/s/c'' = Inr 1"
  by (simp_all add: os_path_getsize_def example_fs_def)

lemma example_scan:
  "walk_loop example_env (example_fs w) (os_walk example_env ''d'') (Map.empty, []) =
     Inr ([''hx'' \<mapsto> ''d/a'', ''hy'' \<mapsto> ''d/c'', ''hxx'' \<mapsto> ''d/s/b''], example_groups)"
  by (simp add: walk_loop_files_loop example_walk_files process_file_cases example_fingerprints
        example_sizes dict_contains_def dict_new_key_def dict_append_def example_groups_def)

lemma example_isdir: "os_path_isdir (example_fs w) ''d''"
  by (simp add: os_path_isdir_def example_fs_def)

lemma example_find:
  "find_duplicate_files example_env (example_fs w) ''d'' = Inr ([], example_groups)"
  by (simp add: find_duplicate_files_def example_isdir example_scan)

lemma example_hashes:
  "calculate_hash example_env (example_fs w) ''d/a'' 65536 = Inr (Some ''hx'')"
  "calculate_hash example_env (example_fs w) ''d/b'' 65536 = Inr (Some ''hx'')"
  "calculate_hash example_env (example_fs w) ''d/c'' 65536 = Inr (Some ''hy'')"
  "calculate_hash example_env (example_fs w) ''d/e'' 65536 = Inr (Some ''h'')"
  "calculate_hash example_env (example_fs w) ''d/u'' 65536 = Inr None"
  "calculate_hash example_env (example_fs w) ''d/s/b'' 65536 = Inr (Some ''hxx'')"
  "calculate_hash example_env (example_fs w) ''d/s/c'' 65536 = Inr (Some ''hy'')"
  by (simp_all add: calculate_hash_default example_env_def example_fs_def)

lemma example_discovered:
  "discovered example_env (example_fs w) ''d'' ''hx'' = [''d/a'', ''d/b'']"
  "discovered example_env (example_fs w) ''d'' ''hy'' = [''d/c'', ''d/s/c'']"
  "discovered example_env (example_fs w) ''d'' ''hxx'' = [''d/s/b'']"
  by (simp_all add: discovered_def example_walk_files example_sizes example_hashes)

lemma example_unique_walk_files:
  "walk_files (os_walk example_env_unique ''d'') = [''d/a'', ''d/c'', ''d/e'', ''d/s/b'']"
  by (simp add: walk_files_def example_env_unique_def os_path_join_def)

lemma example_unique_fingerprints:
  "fingerprint example_env_unique fs p = fingerprint example_env fs p"
proof -
  have "sha256 example_env_unique = sha256 example_env"
    by (simp add: example_env_unique_def example_env_def)
  then have "calculate_hash example_env_unique fs p 65536 = calculate_hash example_env fs p 65536"
    by (rule calculate_hash_digest_only)
  then show ?thesis
    by (simp add: fingerprint_def split: sum.splits)
qed

lemma example_unique_find:
  "find_duplicate_files example_env_unique (example_fs w) ''d'' = Inr ([], [])"
  by (simp add: find_duplicate_files_def example_isdir walk_loop_files_loop
        example_unique_walk_files process_file_cases example_unique_fingerprints
        example_fingerprints example_sizes)

lemma example_groups_duplicate_set: "duplicate_set example_groups"
  by (simp add: duplicate_set_def example_groups_def)

lemma example_slated: "slated example_groups = [''d/b'', ''d/s/c'']"
  by (simp add: slated_def example_groups_def)

lemma example_deletable:
  "deletable (example_fs w) ''d/b''"
  "deletable (example_fs w) ''d/s/c'' = w"
  by (simp_all add: deletable_def example_fs_def)

lemma example_delete:
  "delete_duplicates (example_fs False) example_groups =
     Inr \<lparr>files = (example_fs False)(''d/b'' := None), deleted_count = 1, space_saved = 1,
          shown = [Deleted ''d/b'', Error_Deleting ''d/s/c'' PermissionError]\<rparr>"
proof -
  have b: "example_fs False ''d/b'' = Some (File ''x'' True True)"
    and c: "example_fs False ''d/s/c'' = Some (File ''y'' True False)"
    by (simp_all add: example_fs_def)
  let ?d0 = "\<lparr>files = example_fs False, deleted_count = 0, space_saved = 0, shown = []\<rparr>"
  let ?d1 = "\<lparr>files = (example_fs False)(''d/b'' := None), deleted_count = 1, space_saved = 1,
               shown = [Deleted ''d/b'']\<rparr>"
  have first: "delete_file ?d0 ''d/b'' = ?d1"
    by (simp add: delete_file_def os_path_getsize_def os_remove_def b)
  have second: "delete_file ?d1 ''d/s/c'' = ?d1\<lparr>shown := shown ?d1 @ [Error_Deleting ''d/s/c'' PermissionError]\<rparr>"
    by (simp add: delete_file_def os_path_getsize_def os_remove_def c)
  have run: "groups_loop ?d0 example_groups =
      Inr (?d1\<lparr>shown := shown ?d1 @ [Error_Deleting ''d/s/c'' PermissionError]\<rparr>)"
    unfolding example_groups_def
    by (simp only: groups_loop.simps delete_paths.simps list.case first second)
  have "example_groups \<noteq> []"
    by (simp add: example_groups_def)
  with run show ?thesis
    unfolding delete_duplicates_def by simp
qed

lemma example_total: "total_duplicates example_groups = 2"
  by (simp add: total_duplicates_def example_groups_def)

lemma example_not_dir: "\<not> os_path_isdir (example_fs w) ''d/a''"
  by (simp add: os_path_isdir_def example_fs_def)

lemma stale_walk_files:
  "walk_files (os_walk stale_env folder) =
     [os_path_join folder ''a'', os_path_join folder ''x'', os_path_join folder ''b'']"
  by (simp add: walk_files_def stale_env_def)

lemma stale_files:
  "example_fs w (os_path_join ''d'' ''x'') = None"
  by (simp add: os_path_join_def example_fs_def)

section \<open>The claims\<close>

subsection \<open>C9: the fingerprint is a function of the content\<close>

text \<open>
  Claim C9. The Hasher is a deterministic function of file content. For two files that
  can be read, hashed with the default block size 65536 or any smaller one, the
  fingerprint of each is the digest of all its bytes; the two fingerprints are equal
  exactly when the digests of the two contents are equal. So files with the same bytes
  get the same fingerprint, and files with different bytes get different fingerprints
  unless the two contents are a collision of the digest function. The paths, the file
  systems and the block sizes of the two calls may differ; hashing the same unmodified
  file twice is the case of the same path in the same file system. Nothing is assumed of
  the digest function: no function with digests of a fixed length is free of collisions.
\<close>

theorem calculate_hash_is_digest_of_content:
  assumes "fs p = Some (File c True w)" and "fs' q = Some (File c' True w')"
    and "0 < n" and "n \<le> 65536" and "0 < n'" and "n' \<le> 65536"
  shows "calculate_hash E fs p n = Inr (Some (sha256 E c)) \<and>
         calculate_hash E fs' q n' = Inr (Some (sha256 E c')) \<and>
         (calculate_hash E fs p n = calculate_hash E fs' q n' \<longleftrightarrow> sha256 E c = sha256 E c') \<and>
         (c = c' \<longrightarrow> calculate_hash E fs p n = calculate_hash E fs' q n') \<and>
         (c \<noteq> c' \<longrightarrow> sha256 E c \<noteq> sha256 E c' \<longrightarrow>
            calculate_hash E fs p n \<noteq> calculate_hash E fs' q n')"
proof -
  have "calculate_hash E fs p n = Inr (Some (sha256 E c))"
    using assms(1,3,4) by (intro calculate_hash_readable) simp_all
  moreover have "calculate_hash E fs' q n' = Inr (Some (sha256 E c'))"
    using assms(2,5,6) by (intro calculate_hash_readable) simp_all
  ultimately show ?thesis
    by simp
qed

theorem calculate_hash_is_digest_of_content_witness:
  "calculate_hash fixed_length_env (example_fs True) ''d/a'' 65536 =
     calculate_hash fixed_length_env (example_fs False) ''d/b'' 4096 \<and>
   length (sha256 fixed_length_env ''x'') = 64 \<and>
   \<not> inj (sha256 fixed_length_env) \<and>
   sha256 fixed_length_env ''x'' \<noteq> sha256 fixed_length_env ''y'' \<and>
   calculate_hash fixed_length_env (example_fs True) ''d/a'' 65536 \<noteq>
     calculate_hash fixed_length_env (example_fs True) ''d/c'' 65536"
proof -
  have a: "example_fs True ''d/a'' = Some (File ''x'' True True)"
    and b: "example_fs False ''d/b'' = Some (File ''x'' True True)"
    and c: "example_fs True ''d/c'' = Some (File ''y'' True True)"
    by (simp_all add: example_fs_def)
  have sizes: "(0::int) < 65536" "(65536::int) \<le> 65536" "(0::int) < 4096" "(4096::int) \<le> 65536"
    by simp_all
  have fixed: "length (sha256 fixed_length_env ''x'') = 64"
    by (simp add: fixed_length_env_def)
  have collision: "\<not> inj (sha256 fixed_length_env)"
  proof
    assume "inj (sha256 fixed_length_env)"
    moreover have "sha256 fixed_length_env ''ax'' = sha256 fixed_length_env ''x''"
      by (simp add: fixed_length_env_def)
    ultimately have "''ax'' = ''x''"
      by (rule injD)
    then show False by simp
  qed
  have different: "''x'' \<noteq> ''y''"
    and digests: "sha256 fixed_length_env ''x'' \<noteq> sha256 fixed_length_env ''y''"
    by (simp_all add: fixed_length_env_def)
  have same: "calculate_hash fixed_length_env (example_fs True) ''d/a'' 65536 =
      calculate_hash fixed_length_env (example_fs False) ''d/b'' 4096"
    using calculate_hash_is_digest_of_content
      [where E = fixed_length_env and fs = "example_fs True" and p = "''d/a''"
         and fs' = "example_fs False" and q = "''d/b''" and n = 65536 and n' = 4096,
       OF a b sizes(1) sizes(2) sizes(3) sizes(4)]
    by simp
  have "calculate_hash fixed_length_env (example_fs True) ''d/a'' 65536 \<noteq>
      calculate_hash fixed_length_env (example_fs True) ''d/c'' 65536"
    using calculate_hash_is_digest_of_content
      [where E = fixed_length_env and fs = "example_fs True" and p = "''d/a''"
         and fs' = "example_fs True" and q = "''d/c''" and n = 65536 and n' = 65536,
       OF a c sizes(1) sizes(2) sizes(1) sizes(2)]
      different digests
    by blast
  with same fixed collision digests show ?thesis
    by simp
qed

subsection \<open>C2: a file that cannot be hashed is skipped\<close>

text \<open>
  Claim C2. For a path that cannot be opened or read, \<open>calculate_hash\<close> returns the
  sentinel \<open>None\<close> and raises no exception, whatever the block size; and when the
  scan completes, a path whose hash is the sentinel is neither a value of \<open>file_hashes\<close>
  nor a member of a group of \<open>duplicates\<close>.
\<close>

theorem unavailable_fingerprint_is_never_grouped:
  "(\<not> can_read fs p \<longrightarrow> calculate_hash E fs p n = Inr None) \<and>
   (calculate_hash E fs p 65536 = Inr None \<longrightarrow>
    walk_loop E fs (os_walk E root) (Map.empty, []) = Inr (file_hashes, duplicates) \<longrightarrow>
    p \<notin> ran file_hashes \<and> p \<notin> \<Union> (set ` snd ` set duplicates))"
proof (intro conjI impI)
  assume "\<not> can_read fs p"
  then show "calculate_hash E fs p n = Inr None"
    by (simp add: calculate_hash_None_iff)
next
  assume none: "calculate_hash E fs p 65536 = Inr None"
    and scan: "walk_loop E fs (os_walk E root) (Map.empty, []) = Inr (file_hashes, duplicates)"
  have "p \<notin> ran file_hashes \<union> \<Union> (set ` snd ` set duplicates)"
  proof
    assume "p \<in> ran file_hashes \<union> \<Union> (set ` snd ` set duplicates)"
    from scan_members_fingerprinted [OF scan this] none show False
      by (simp add: fingerprint_Some)
  qed
  then show "p \<notin> ran file_hashes" and "p \<notin> \<Union> (set ` snd ` set duplicates)"
    by simp_all
qed

theorem unavailable_fingerprint_is_never_grouped_witness:
  "\<not> can_read (example_fs True) ''d/u'' \<and>
   calculate_hash example_env (example_fs True) ''d/u'' 65536 = Inr None \<and>
   walk_loop example_env (example_fs True) (os_walk example_env ''d'') (Map.empty, []) =
     Inr ([''hx'' \<mapsto> ''d/a'', ''hy'' \<mapsto> ''d/c'', ''hxx'' \<mapsto> ''d/s/b''], example_groups) \<and>
   ''d/u'' \<in> set (walk_files (os_walk example_env ''d'')) \<and>
   ''d/u'' \<notin> ran [''hx'' \<mapsto> ''d/a'', ''hy'' \<mapsto> ''d/c'', ''hxx'' \<mapsto> ''d/s/b''] \<and>
   ''d/u'' \<notin> \<Union> (set ` snd ` set example_groups)"
proof -
  have unreadable: "\<not> can_read (example_fs True) ''d/u''"
    by (simp add: can_read_def example_fs_def)
  have listed: "''d/u'' \<in> set (walk_files (os_walk example_env ''d''))"
    by (simp add: example_walk_files)
  from unavailable_fingerprint_is_never_grouped
    [where fs = "example_fs True" and p = "''d/u''" and E = example_env and n = 65536
       and root = "''d''"
       and file_hashes = "[''hx'' \<mapsto> ''d/a'', ''hy'' \<mapsto> ''d/c'', ''hxx'' \<mapsto> ''d/s/b'']"
       and duplicates = example_groups]
    unreadable listed example_scan [of True]
  show ?thesis by blast
qed

subsection \<open>C4: empty files are not grouped\<close>

text \<open>
  Claim C4. When the scan completes, a path whose size is zero is neither a value of
  \<open>file_hashes\<close> nor a member of a group of \<open>duplicates\<close>, and every path that is one of
  these has a size, which is greater than zero.
\<close>

theorem zero_byte_files_are_never_grouped:
  assumes "walk_loop E fs (os_walk E root) (Map.empty, []) = Inr (file_hashes, duplicates)"
  shows "(os_path_getsize fs p = Inr 0 \<longrightarrow>
            p \<notin> ran file_hashes \<and> p \<notin> \<Union> (set ` snd ` set duplicates)) \<and>
         (p \<in> ran file_hashes \<union> \<Union> (set ` snd ` set duplicates) \<longrightarrow>
            (\<exists>n. os_path_getsize fs p = Inr n \<and> 0 < n))"
proof -
  have grouped: "\<exists>n. os_path_getsize fs p = Inr n \<and> 0 < n"
    if "p \<in> ran file_hashes \<union> \<Union> (set ` snd ` set duplicates)" for p
    using scan_members_fingerprinted [OF assms that] by (auto simp: fingerprint_Some)
  show ?thesis
  proof (intro conjI impI)
    assume "p \<in> ran file_hashes \<union> \<Union> (set ` snd ` set duplicates)"
    then show "\<exists>n. os_path_getsize fs p = Inr n \<and> 0 < n"
      by (rule grouped)
  next
    assume zero: "os_path_getsize fs p = Inr 0"
    have "p \<notin> ran file_hashes \<union> \<Union> (set ` snd ` set duplicates)"
    proof
      assume "p \<in> ran file_hashes \<union> \<Union> (set ` snd ` set duplicates)"
      from grouped [OF this] zero show False by simp
    qed
    then show "p \<notin> ran file_hashes" and "p \<notin> \<Union> (set ` snd ` set duplicates)"
      by simp_all
  qed
qed

theorem zero_byte_files_are_never_grouped_witness:
  "walk_loop example_env (example_fs True) (os_walk example_env ''d'') (Map.empty, []) =
     Inr ([''hx'' \<mapsto> ''d/a'', ''hy'' \<mapsto> ''d/c'', ''hxx'' \<mapsto> ''d/s/b''], example_groups) \<and>
   ''d/e'' \<in> set (walk_files (os_walk example_env ''d'')) \<and>
   os_path_getsize (example_fs True) ''d/e'' = Inr 0 \<and>
   ''d/e'' \<notin> ran [''hx'' \<mapsto> ''d/a'', ''hy'' \<mapsto> ''d/c'', ''hxx'' \<mapsto> ''d/s/b''] \<and>
   ''d/e'' \<notin> \<Union> (set ` snd ` set example_groups) \<and>
   ''d/b'' \<in> \<Union> (set ` snd ` set example_groups) \<and>
   (\<exists>n. os_path_getsize (example_fs True) ''d/b'' = Inr n \<and> 0 < n)"
proof -
  have listed: "''d/e'' \<in> set (walk_files (os_walk example_env ''d''))"
    by (simp add: example_walk_files)
  have grouped: "''d/b'' \<in> \<Union> (set ` snd ` set example_groups)"
    by (simp add: example_groups_def)
  from zero_byte_files_are_never_grouped [OF example_scan [of True], of "''d/e''"]
    zero_byte_files_are_never_grouped [OF example_scan [of True], of "''d/b''"]
    listed grouped example_sizes(4) [of True] example_scan [of True]
  show ?thesis by blast
qed

subsection \<open>C5: the returned groups\<close>

text \<open>
  Claim C5. When the scan of a directory completes, it shows no dialog, and the returned
  dictionary has, once each, exactly the fingerprints for which two or more paths were
  discovered: every group has at least two paths and holds all the paths discovered for
  its fingerprint, in discovery order. When the dictionary is empty, the run prints the
  scanning line, shows the "No Duplicates Found" dialog and nothing else (no confirmation
  window, no deletion), and leaves the file system as it was. The digest is taken to be a
  non-empty string, as a hexadecimal SHA-256 digest is.
\<close>

theorem find_duplicate_files_groups:
  assumes dir: "os_path_isdir fs root"
    and run: "find_duplicate_files E fs root = Inr (dialogs, duplicates)"
    and digest: "\<forall>b. sha256 E b \<noteq> []"
  shows "dialogs = [] \<and>
         distinct (map fst duplicates) \<and>
         (\<forall>h. map_of duplicates h =
                (if 2 \<le> length (discovered E fs root h) then Some (discovered E fs root h)
                 else None)) \<and>
         (\<forall>(h, g) \<in> set duplicates. 2 \<le> length g \<and> g = discovered E fs root h) \<and>
         (duplicates = [] \<longrightarrow> root \<noteq> [] \<longrightarrow>
            main E fs root user = Inr ([Scanning root, Info_No_Duplicates], fs))"
proof -
  from find_duplicate_files_directory [OF dir run] obtain file_hashes
    where none: "dialogs = []"
      and scan: "walk_loop E fs (os_walk E root) (Map.empty, []) = Inr (file_hashes, duplicates)"
    by blast
  from scan have inv: "scan_inv E fs (walk_files (os_walk E root)) (file_hashes, duplicates)"
    by (rule walk_loop_scan_inv)
  note same = group_of_discovered [OF digest, of fs root]
  from inv have keys: "distinct (map fst duplicates)"
    by (simp add: scan_inv_def)
  from inv have lookup: "\<forall>h. map_of duplicates h =
      (if 2 \<le> length (discovered E fs root h) then Some (discovered E fs root h) else None)"
    by (simp add: scan_inv_def same)
  have members: "\<forall>(h, g) \<in> set duplicates. 2 \<le> length g \<and> g = discovered E fs root h"
    using scan_inv_group_member [OF inv] by (auto simp: same)
  have report: "duplicates = [] \<longrightarrow> root \<noteq> [] \<longrightarrow>
      main E fs root user = Inr ([Scanning root, Info_No_Duplicates], fs)"
    using main_no_duplicates [of root E fs dialogs user] run none by simp
  from none keys lookup members report show ?thesis
    by blast
qed

theorem find_duplicate_files_groups_witness:
  "os_path_isdir (example_fs True) ''d'' \<and>
   find_duplicate_files example_env (example_fs True) ''d'' =
     Inr ([], [(''hx'', [''d/a'', ''d/b'']), (''hy'', [''d/c'', ''d/s/c''])]) \<and>
   map_of [(''hx'', [''d/a'', ''d/b'']), (''hy'', [''d/c'', ''d/s/c''])] ''hy'' =
     Some (discovered example_env (example_fs True) ''d'' ''hy'') \<and>
   map_of [(''hx'', [''d/a'', ''d/b'']), (''hy'', [''d/c'', ''d/s/c''])] ''hxx'' = None \<and>
   length (discovered example_env (example_fs True) ''d'' ''hxx'') = 1 \<and>
   find_duplicate_files example_env_unique (example_fs True) ''d'' = Inr ([], []) \<and>
   main example_env_unique (example_fs True) ''d'' Press_Delete =
     Inr ([Scanning ''d'', Info_No_Duplicates], example_fs True)"
proof -
  have digest: "\<forall>b. sha256 example_env b \<noteq> []"
    and digest': "\<forall>b. sha256 example_env_unique b \<noteq> []"
    by (simp_all add: example_env_def example_env_unique_def)
  have run: "find_duplicate_files example_env (example_fs True) ''d'' =
      Inr ([], [(''hx'', [''d/a'', ''d/b'']), (''hy'', [''d/c'', ''d/s/c''])])"
    using example_find [of True] by (simp add: example_groups_def)
  have folder: "''d'' \<noteq> []"
    by simp
  from find_duplicate_files_groups [OF example_isdir run digest, where user = Press_Delete]
  have "map_of [(''hx'', [''d/a'', ''d/b'']), (''hy'', [''d/c'', ''d/s/c''])] ''hy'' =
          Some (discovered example_env (example_fs True) ''d'' ''hy'') \<and>
        map_of [(''hx'', [''d/a'', ''d/b'']), (''hy'', [''d/c'', ''d/s/c''])] ''hxx'' = None"
    by (simp add: example_discovered)
  moreover
  from find_duplicate_files_groups [OF example_isdir example_unique_find digest', where user = Press_Delete]
    folder
  have "main example_env_unique (example_fs True) ''d'' Press_Delete =
      Inr ([Scanning ''d'', Info_No_Duplicates], example_fs True)"
    by blast
  ultimately show ?thesis
    using example_isdir [of True] run example_unique_find [of True] example_discovered(3) [of True]
    by simp
qed

subsection \<open>C3: the original of every group is kept\<close>

text \<open>
  Claim C3. For every DuplicateSet, \<open>delete_duplicates\<close> returns and leaves the first path
  of every group as it was; and when every path it attempts can be removed, the paths of
  a group that existed before and no longer exist afterwards are exactly those at index 1
  and above, which are the size of the group less one.
\<close>

theorem originals_are_kept:
  assumes "duplicate_set duplicates"
  shows "\<exists>d. delete_duplicates fs duplicates = Inr d \<and>
    (\<forall>(h, g) \<in> set duplicates. files d (hd g) = fs (hd g)) \<and>
    ((\<forall>p \<in> set (slated duplicates). deletable fs p) \<longrightarrow>
       (\<forall>(h, g) \<in> set duplicates.
          removed fs (files d) \<inter> set g = set (drop 1 g) \<and>
          card (removed fs (files d) \<inter> set g) = length g - 1))"
proof -
  from assms have dist: "distinct (concat (map snd duplicates))"
    and two: "\<forall>g \<in> snd ` set duplicates. 2 \<le> length g"
    by (simp_all add: duplicate_set_def)
  from two have "\<forall>g \<in> snd ` set duplicates. g \<noteq> []"
    by auto
  from delete_duplicates_closed_form [OF this, of fs] obtain d
    where run: "delete_duplicates fs duplicates = Inr d"
      and after: "files d =
        (\<lambda>q. if q \<in> set (slated duplicates) \<and> deletable fs q then None else fs q)"
    by blast
  have original: "hd g \<notin> set (slated duplicates)" and nonempty: "g \<noteq> []" and dg: "distinct g"
    if "(h, g) \<in> set duplicates" for h g
  proof -
    from that two have "2 \<le> length g" by force
    then obtain p ps where g: "g = p # ps" by (cases g) auto
    from original_not_slated [OF dist that [unfolded g]] show "hd g \<notin> set (slated duplicates)"
      by (simp add: g)
    show "g \<noteq> []" by (simp add: g)
    from that have "g \<in> set (map snd duplicates)" by force
    with dist show "distinct g" by (auto simp: distinct_concat_iff)
  qed
  have kept: "\<forall>(h, g) \<in> set duplicates. files d (hd g) = fs (hd g)"
    using original by (auto simp: after)
  have gone: "removed fs (files d) \<inter> set g = set (drop 1 g) \<and>
      card (removed fs (files d) \<inter> set g) = length g - 1"
    if all: "\<forall>p \<in> set (slated duplicates). deletable fs p" and mem: "(h, g) \<in> set duplicates"
    for h g
  proof -
    from nonempty [OF mem] obtain p ps where g: "g = p # ps" by (cases g) auto
    have rem: "removed fs (files d) = set (slated duplicates)"
      using all by (auto simp: after removed_closed_form)
    have "p \<notin> set (slated duplicates)"
      using original [OF mem] by (simp add: g)
    moreover have "set ps \<subseteq> set (slated duplicates)"
      using group_tail_slated [OF mem] by (simp add: g)
    ultimately have eq: "removed fs (files d) \<inter> set g = set ps"
      by (auto simp: rem g)
    from dg [OF mem] have "card (set ps) = length ps"
      by (simp add: g distinct_card)
    with eq show ?thesis by (simp add: g)
  qed
  from run kept gone show ?thesis
    by blast
qed

theorem originals_are_kept_witness:
  "duplicate_set example_groups \<and>
   slated example_groups = [''d/b'', ''d/s/c''] \<and>
   deletable (example_fs True) ''d/b'' \<and> deletable (example_fs True) ''d/s/c'' \<and>
   (\<exists>d. delete_duplicates (example_fs True) example_groups = Inr d \<and>
        files d ''d/a'' = example_fs True ''d/a'' \<and>
        files d ''d/c'' = example_fs True ''d/c'' \<and>
        removed (example_fs True) (files d) \<inter> set [''d/a'', ''d/b''] = {''d/b''} \<and>
        card (removed (example_fs True) (files d) \<inter> set [''d/a'', ''d/b'']) = 1 \<and>
        removed (example_fs True) (files d) \<inter> set [''d/c'', ''d/s/c''] = {''d/s/c''} \<and>
        card (removed (example_fs True) (files d) \<inter> set [''d/c'', ''d/s/c'']) = 1)"
proof -
  have all: "\<forall>p \<in> set (slated example_groups). deletable (example_fs True) p"
    by (simp add: example_slated example_deletable)
  have x: "(''hx'', [''d/a'', ''d/b'']) \<in> set example_groups"
    and y: "(''hy'', [''d/c'', ''d/s/c'']) \<in> set example_groups"
    by (simp_all add: example_groups_def)
  from originals_are_kept [OF example_groups_duplicate_set, of "example_fs True"] all
  obtain d where run: "delete_duplicates (example_fs True) example_groups = Inr d"
    and kept: "\<forall>(h, g) \<in> set example_groups. files d (hd g) = example_fs True (hd g)"
    and gone: "\<forall>(h, g) \<in> set example_groups.
          removed (example_fs True) (files d) \<inter> set g = set (drop 1 g) \<and>
          card (removed (example_fs True) (files d) \<inter> set g) = length g - 1"
    by blast
  from kept x y have "files d ''d/a'' = example_fs True ''d/a''"
    and "files d ''d/c'' = example_fs True ''d/c''"
    by force+
  moreover from gone x have
    "removed (example_fs True) (files d) \<inter> set [''d/a'', ''d/b''] = {''d/b''} \<and>
     card (removed (example_fs True) (files d) \<inter> set [''d/a'', ''d/b'']) = 1"
    by force
  moreover from gone y have
    "removed (example_fs True) (files d) \<inter> set [''d/c'', ''d/s/c''] = {''d/s/c''} \<and>
     card (removed (example_fs True) (files d) \<inter> set [''d/c'', ''d/s/c'']) = 1"
    by force
  ultimately show ?thesis
    using run example_groups_duplicate_set example_slated example_deletable [of True]
    by blast
qed

subsection \<open>C6: the totals count the removed files only\<close>

text \<open>
  Claim C6. For a dictionary whose groups are not empty, \<open>delete_duplicates\<close> returns;
  the paths that existed before the run and no longer exist after it are among the paths
  slated for deletion; the returned count is their number and the returned total is the
  sum of their sizes; a path whose removal cannot succeed is left as it was and is not
  among them. Attempt by attempt: a removal that succeeds adds one to the count and, to
  the total, the size the file has in the file system as it is at that moment; a removal
  that fails reports an error and changes neither the count, nor the total, nor the file
  system. Nothing but the removals changes the file system during the run, so the size at
  that moment is the size at the start.
\<close>

theorem space_saved_is_sum_of_removed_sizes:
  assumes "\<forall>g \<in> snd ` set duplicates. g \<noteq> []"
  shows "\<exists>d. delete_duplicates fs duplicates = Inr d \<and>
    removed fs (files d) \<subseteq> set (slated duplicates) \<and>
    deleted_count d = card (removed fs (files d)) \<and>
    space_saved d = sum (size_of fs) (removed fs (files d)) \<and>
    (\<forall>p. \<not> deletable fs p \<longrightarrow> files d p = fs p \<and> p \<notin> removed fs (files d)) \<and>
    (\<forall>d0 p. deletable (files d0) p \<longrightarrow>
       delete_file d0 p =
         d0\<lparr>files := (files d0)(p := None),
            deleted_count := deleted_count d0 + 1,
            space_saved := space_saved d0 + size_of (files d0) p,
            shown := shown d0 @ [Deleted p]\<rparr>) \<and>
    (\<forall>d0 p. \<not> deletable (files d0) p \<longrightarrow>
       (\<exists>e. delete_file d0 p = d0\<lparr>shown := shown d0 @ [Error_Deleting p e]\<rparr>))"
proof -
  from delete_duplicates_closed_form [OF assms, of fs] obtain d
    where run: "delete_duplicates fs duplicates = Inr d"
      and after: "files d =
        (\<lambda>q. if q \<in> set (slated duplicates) \<and> deletable fs q then None else fs q)"
      and count: "deleted_count d = card {q \<in> set (slated duplicates). deletable fs q}"
      and space: "space_saved d = sum (size_of fs) {q \<in> set (slated duplicates). deletable fs q}"
    by blast
  have rem: "removed fs (files d) = {q \<in> set (slated duplicates). deletable fs q}"
    by (simp only: after removed_closed_form)
  have failed: "\<forall>p. \<not> deletable fs p \<longrightarrow> files d p = fs p \<and> p \<notin> removed fs (files d)"
    by (simp add: rem) (simp add: after)
  have sub: "removed fs (files d) \<subseteq> set (slated duplicates)"
    by (auto simp: rem)
  from run sub count space failed delete_file_deletable delete_file_not_deletable
  show ?thesis
    unfolding rem [symmetric] by blast
qed

theorem space_saved_is_sum_of_removed_sizes_witness:
  "\<exists>d. delete_duplicates (example_fs False) example_groups = Inr d \<and>
      shown d = [Deleted ''d/b'', Error_Deleting ''d/s/c'' PermissionError] \<and>
      deleted_count d = 1 \<and> card (removed (example_fs False) (files d)) = 1 \<and>
      space_saved d = 1 \<and> sum (size_of (example_fs False)) (removed (example_fs False) (files d)) = 1 \<and>
      \<not> deletable (example_fs False) ''d/s/c'' \<and>
      files d ''d/s/c'' = example_fs False ''d/s/c'' \<and>
      ''d/s/c'' \<notin> removed (example_fs False) (files d)"
proof -
  have groups: "\<forall>g \<in> snd ` set example_groups. g \<noteq> []"
    by (simp add: example_groups_def)
  from space_saved_is_sum_of_removed_sizes [OF groups, of "example_fs False"]
  show ?thesis
    by (auto simp: example_delete example_deletable)
qed

subsection \<open>C7: declining deletes nothing\<close>

text \<open>
  Claim C7 says that in every run in which the user declines the confirmation, nothing
  is deleted and the run is reported as cancelled. The window can be declined in two
  ways: by the Cancel button, whose callback \<open>on_cancel\<close> shows the dialog "Cancelled: No
  files were deleted.", and by closing the window, for which the script installs no
  handler anywhere, so that no callback of the script runs. In the small directory,
  closing the window ends the trace with the confirmation window: nothing is reported.
\<close>

theorem closing_the_window_reports_nothing:
  "main example_env (example_fs True) ''d'' Close_Window =
     Inr ([Scanning ''d'', Confirm_Deletion 2 [''d/b'', ''d/s/c'']], example_fs True) \<and>
   Info_Cancelled_No_Files_Deleted \<notin> set [Scanning ''d'', Confirm_Deletion 2 [''d/b'', ''d/s/c'']]"
proof -
  have folder: "''d'' \<noteq> []"
    by simp
  have groups: "example_groups \<noteq> []"
    by (simp add: example_groups_def)
  from main_cancel [OF folder example_find [of True] groups] show ?thesis
    by (simp add: example_total example_slated)
qed

text \<open>
  Claim C7 as amended. In a run whose scan found duplicates, so that the confirmation
  window is shown, and in which the user does not press Delete Duplicates, the run ends
  with the file system as it was, and its trace has the confirmation window, no deletion
  and no summary; when the user presses Cancel, the trace ends with the "Cancelled: No
  files were deleted." dialog.
\<close>

theorem declining_deletes_nothing:
  assumes "folder \<noteq> []"
    and "find_duplicate_files E fs folder = Inr (dialogs, duplicates)"
    and "duplicates \<noteq> []"
    and "user \<noteq> Press_Delete"
  shows "\<exists>trace. main E fs folder user = Inr (trace, fs) \<and>
           Confirm_Deletion (total_duplicates duplicates) (slated duplicates) \<in> set trace \<and>
           (\<forall>p. Deleted p \<notin> set trace) \<and>
           (\<forall>n b. Info_Summary n b \<notin> set trace) \<and>
           (user = Press_Cancel \<longrightarrow> last trace = Info_Cancelled_No_Files_Deleted)"
proof -
  from find_duplicate_files_dialogs [OF assms(2)] assms(3) have none: "dialogs = []"
    by auto
  from assms(4) consider "user = Press_Cancel" | "user = Close_Window"
    by (cases user) simp_all
  then show ?thesis
  proof cases
    case 1
    with main_cancel [OF assms(1-3)] none show ?thesis by simp
  next
    case 2
    with main_cancel [OF assms(1-3)] none show ?thesis by simp
  qed
qed

theorem declining_deletes_nothing_witness:
  "find_duplicate_files example_env (example_fs True) ''d'' = Inr ([], example_groups) \<and>
   example_groups \<noteq> [] \<and>
   (\<exists>trace. main example_env (example_fs True) ''d'' Press_Cancel = Inr (trace, example_fs True) \<and>
        Confirm_Deletion 2 [''d/b'', ''d/s/c''] \<in> set trace \<and>
        last trace = Info_Cancelled_No_Files_Deleted \<and>
        Deleted ''d/b'' \<notin> set trace \<and> Deleted ''d/s/c'' \<notin> set trace) \<and>
   (\<exists>trace. main example_env (example_fs True) ''d'' Close_Window = Inr (trace, example_fs True) \<and>
        Confirm_Deletion 2 [''d/b'', ''d/s/c''] \<in> set trace \<and>
        Deleted ''d/b'' \<notin> set trace \<and> Deleted ''d/s/c'' \<notin> set trace)"
proof -
  have folder: "''d'' \<noteq> []"
    by simp
  have groups: "example_groups \<noteq> []"
    by (simp add: example_groups_def)
  have cancel: "Press_Cancel \<noteq> Press_Delete" and close: "Close_Window \<noteq> Press_Delete"
    by simp_all
  from declining_deletes_nothing [OF folder example_find [of True] groups cancel]
  obtain trace
    where "main example_env (example_fs True) ''d'' Press_Cancel = Inr (trace, example_fs True)"
      and "Confirm_Deletion (total_duplicates example_groups) (slated example_groups) \<in> set trace"
      and "last trace = Info_Cancelled_No_Files_Deleted"
      and "\<forall>p. Deleted p \<notin> set trace"
    by blast
  then have first: "\<exists>trace.
      main example_env (example_fs True) ''d'' Press_Cancel = Inr (trace, example_fs True) \<and>
      Confirm_Deletion 2 [''d/b'', ''d/s/c''] \<in> set trace \<and>
      last trace = Info_Cancelled_No_Files_Deleted \<and>
      Deleted ''d/b'' \<notin> set trace \<and> Deleted ''d/s/c'' \<notin> set trace"
    by (auto simp: example_total example_slated)
  from declining_deletes_nothing [OF folder example_find [of True] groups close]
  obtain trace'
    where "main example_env (example_fs True) ''d'' Close_Window = Inr (trace', example_fs True)"
      and "Confirm_Deletion (total_duplicates example_groups) (slated example_groups) \<in> set trace'"
      and "\<forall>p. Deleted p \<notin> set trace'"
    by blast
  then have second: "\<exists>trace.
      main example_env (example_fs True) ''d'' Close_Window = Inr (trace, example_fs True) \<and>
      Confirm_Deletion 2 [''d/b'', ''d/s/c''] \<in> set trace \<and>
      Deleted ''d/b'' \<notin> set trace \<and> Deleted ''d/s/c'' \<notin> set trace"
    by (auto simp: example_total example_slated)
  from first second groups example_find [of True] show ?thesis
    by blast
qed

subsection \<open>C8: a root that is not a directory\<close>

text \<open>
  Claim C8. When the root is not a directory, \<open>find_duplicate_files\<close> shows the error
  dialog "The selected path is not a valid directory." and returns the empty dictionary,
  whatever the walk would list and whatever the files are: nothing is walked, sized or
  hashed, so nothing can raise. In the main flow the error follows the scanning line at
  once, and no confirmation window and no deletion is in the trace; the file system is
  as it was.
\<close>

theorem invalid_root_is_rejected:
  assumes "\<not> os_path_isdir fs root"
  shows "find_duplicate_files E fs root = Inr ([Error_Invalid_Directory], []) \<and>
         (root \<noteq> [] \<longrightarrow>
            (\<exists>trace. main E fs root user = Inr (trace, fs) \<and>
               take 2 trace = [Scanning root, Error_Invalid_Directory] \<and>
               (\<forall>n ps. Confirm_Deletion n ps \<notin> set trace) \<and>
               (\<forall>p. Deleted p \<notin> set trace)))"
  using find_duplicate_files_invalid [OF assms, of E]
    main_no_duplicates [of root E fs "[Error_Invalid_Directory]" user]
  by auto

theorem invalid_root_is_rejected_witness:
  "\<not> os_path_isdir (example_fs True) ''d/a'' \<and>
   example_fs True (os_path_join ''d/a'' ''a'') = None \<and>
   os_path_join ''d/a'' ''a'' \<in> set (walk_files (os_walk stale_env ''d/a'')) \<and>
   find_duplicate_files stale_env (example_fs True) ''d/a'' = Inr ([Error_Invalid_Directory], []) \<and>
   (\<exists>trace. main stale_env (example_fs True) ''d/a'' Press_Delete = Inr (trace, example_fs True) \<and>
        take 2 trace = [Scanning ''d/a'', Error_Invalid_Directory] \<and>
        (\<forall>n ps. Confirm_Deletion n ps \<notin> set trace) \<and>
        (\<forall>p. Deleted p \<notin> set trace))"
proof -
  have root: "''d/a'' \<noteq> []"
    by simp
  have gone: "example_fs True (os_path_join ''d/a'' ''a'') = None"
    by (simp add: os_path_join_def example_fs_def)
  have listed: "os_path_join ''d/a'' ''a'' \<in> set (walk_files (os_walk stale_env ''d/a''))"
    by (simp add: stale_walk_files)
  from invalid_root_is_rejected [OF example_not_dir [of True], of stale_env Press_Delete]
    root gone listed example_not_dir [of True]
  show ?thesis
    by blast
qed

subsection \<open>C10: the invalid root and the folder without duplicates return the same\<close>

text \<open>
  Claim C10. For a root that is not a directory \<open>find_duplicate_files\<close> returns the empty
  dictionary, which is what it returns for a directory without duplicates; the caller
  cannot tell the two by the returned value. The main flow therefore shows the
  "No Duplicates Found" dialog after the error dialog.
\<close>

theorem invalid_root_looks_like_no_duplicates:
  assumes "\<not> os_path_isdir fs root" and "root \<noteq> []"
    and "os_path_isdir fs' root'" and "find_duplicate_files E' fs' root' = Inr (dialogs', [])"
  shows "return_value (find_duplicate_files E fs root) =
           return_value (find_duplicate_files E' fs' root') \<and>
         return_value (find_duplicate_files E fs root) = Inr [] \<and>
         main E fs root user = Inr ([Scanning root, Error_Invalid_Directory, Info_No_Duplicates], fs)"
  using find_duplicate_files_invalid [OF assms(1), of E]
    main_no_duplicates [of root E fs "[Error_Invalid_Directory]" user] assms(2,4)
  by (simp add: return_value_def)

theorem invalid_root_looks_like_no_duplicates_witness:
  "\<not> os_path_isdir (example_fs True) ''d/a'' \<and>
   os_path_isdir (example_fs True) ''d'' \<and>
   find_duplicate_files example_env_unique (example_fs True) ''d'' = Inr ([], []) \<and>
   find_duplicate_files example_env_unique (example_fs True) ''d/a'' = Inr ([Error_Invalid_Directory], []) \<and>
   return_value (find_duplicate_files example_env_unique (example_fs True) ''d/a'') =
     return_value (find_duplicate_files example_env_unique (example_fs True) ''d'') \<and>
   main example_env_unique (example_fs True) ''d/a'' Press_Delete =
     Inr ([Scanning ''d/a'', Error_Invalid_Directory, Info_No_Duplicates], example_fs True) \<and>
   main example_env_unique (example_fs True) ''d'' Press_Delete =
     Inr ([Scanning ''d'', Info_No_Duplicates], example_fs True)"
proof -
  have root: "''d/a'' \<noteq> []" and root': "''d'' \<noteq> []"
    by simp_all
  from invalid_root_looks_like_no_duplicates
    [OF example_not_dir [of True] root example_isdir [of True] example_unique_find [of True],
      where E = example_env_unique and user = Press_Delete]
    example_not_dir [of True] example_isdir [of True] example_unique_find [of True]
    find_duplicate_files_invalid [OF example_not_dir [of True], of example_env_unique]
    main_no_duplicates [OF root' example_unique_find [of True], of Press_Delete]
  show ?thesis
    by simp
qed

subsection \<open>C1: a file that vanishes before it is sized\<close>

text \<open>
  Claim C1 says that a failure local to one file never aborts the scan. The call of
  \<open>os.path.getsize\<close> in the loop of \<open>find_duplicate_files\<close> is outside any \<open>try\<close>: when the
  walk lists a name that names nothing, the \<open>OSError\<close> leaves the function, and the files
  after it (here \<open>d/b\<close>, a copy of \<open>d/a\<close>) are never looked at, although the same folder
  listed without that name gives the group of \<open>d/a\<close> and \<open>d/b\<close>. The lemma
  \<open>find_duplicate_files_raises\<close> says when this happens: exactly when a listed path names
  nothing. A file that exists and cannot be read does not abort the scan (claim C2).
\<close>

theorem scan_aborts_on_vanished_file:
  "find_duplicate_files stale_env (example_fs True) ''d'' = Inl (OSError FileNotFoundError ''d/x'') \<and>
   find_duplicate_files (stale_env\<lparr>os_walk := \<lambda>folder. [(folder, [], [''a'', ''b''])]\<rparr>)
     (example_fs True) ''d'' = Inr ([], [(''hx'', [''d/a'', ''d/b''])])"
proof -
  let ?E = "stale_env\<lparr>os_walk := \<lambda>folder. [(folder, [], [''a'', ''b''])]\<rparr>"
  have join: "os_path_join ''d'' ''a'' = ''d/a''" "os_path_join ''d'' ''x'' = ''d/x''"
    "os_path_join ''d'' ''b'' = ''d/b''"
    by (simp_all add: os_path_join_def)
  have x: "os_path_getsize (example_fs True) ''d/x'' = Inl FileNotFoundError"
    by (simp add: os_path_getsize_def example_fs_def)
  have fp: "fingerprint stale_env (example_fs True) ''d/a'' = Some ''hx''"
    "fingerprint ?E (example_fs True) ''d/a'' = Some ''hx''"
    "fingerprint ?E (example_fs True) ''d/b'' = Some ''hx''"
    by (simp_all add: fingerprint_def os_path_getsize_def calculate_hash_default
          stale_env_def example_fs_def)
  have aborted: "find_duplicate_files stale_env (example_fs True) ''d'' =
      Inl (OSError FileNotFoundError ''d/x'')"
    by (simp add: find_duplicate_files_def example_isdir walk_loop_files_loop stale_walk_files
          join process_file_cases example_sizes x fp)
  have complete: "find_duplicate_files ?E (example_fs True) ''d'' =
      Inr ([], [(''hx'', [''d/a'', ''d/b''])])"
    by (simp add: find_duplicate_files_def example_isdir walk_loop_files_loop walk_files_def join
          process_file_cases example_sizes fp dict_contains_def dict_new_key_def dict_append_def)
  from aborted complete show ?thesis by simp
qed

end
